theory Spec2Isabelle
  imports Complex_Main
begin

section \<open>Quality scoring (\<open>calculate_quality_score\<close>)\<close>

text \<open>
  The scoring algorithm of the requirements document:
  \<^verbatim>\<open>
  def calculate_quality_score(issues, metrics):
      base_score = 100.0
      for issue in issues:
          severity = issue.get('severity', 'low')
          if severity == 'critical':   base_score -= 20
          elif severity == 'high':     base_score -= 10
          elif severity == 'medium':   base_score -= 5
          else:                        base_score -= 2
      for metric_name, value in metrics.items():
          if metric_name == 'docstring_coverage' and value >= 80:  base_score += 5
          elif metric_name == 'test_coverage' and value >= 90:     base_score += 10
      return max(0.0, min(100.0, base_score))
  \<close>
  An issue is a dictionary from field names to strings. The metrics dictionary is
  iterated in insertion order, so it is an association list; a dictionary holds every
  key once (\<open>distinct (map fst metrics)\<close>). The score is a Python float whose every
  intermediate value is a small whole number, hence exact; it is modelled as a real.
\<close>

type_synonym issue = "string \<rightharpoonup> string"

type_synonym metrics = "(string \<times> real) list"

definition get_severity :: "issue \<Rightarrow> string" where
  "get_severity issue = (case issue ''severity'' of None \<Rightarrow> ''low'' | Some s \<Rightarrow> s)"

definition deduct :: "real \<Rightarrow> issue \<Rightarrow> real" where
  "deduct base_score issue =
     (let severity = get_severity issue in
      if severity = ''critical'' then base_score - 20
      else if severity = ''high'' then base_score - 10
      else if severity = ''medium'' then base_score - 5
      else base_score - 2)"

definition reward :: "real \<Rightarrow> string \<times> real \<Rightarrow> real" where
  "reward base_score m =
     (case m of (metric_name, v) \<Rightarrow>
        if metric_name = ''docstring_coverage'' \<and> v \<ge> 80 then base_score + 5
        else if metric_name = ''test_coverage'' \<and> v \<ge> 90 then base_score + 10
        else base_score)"

definition calculate_quality_score :: "issue list \<Rightarrow> metrics \<Rightarrow> real" where
  "calculate_quality_score issues ms =
     max 0 (min 100 (foldl reward (foldl deduct 100 issues) ms))"

text \<open>
  The scoring policy in the words of the specification: counts of findings per severity,
  a bonus for the positive signals, a clamp.
\<close>

definition count_severity :: "string \<Rightarrow> issue list \<Rightarrow> nat" where
  "count_severity s issues = length (filter (\<lambda>i. get_severity i = s) issues)"

definition signal :: "metrics \<Rightarrow> string \<Rightarrow> real \<Rightarrow> bool" where
  "signal ms name bound = (case map_of ms name of None \<Rightarrow> False | Some v \<Rightarrow> v \<ge> bound)"

definition rubric_bonus :: "metrics \<Rightarrow> real" where
  "rubric_bonus ms =
     (if signal ms ''docstring_coverage'' 80 then 5 else 0) +
     (if signal ms ''test_coverage'' 90 then 10 else 0)"

definition policy_score :: "issue list \<Rightarrow> metrics \<Rightarrow> real" where
  "policy_score issues ms =
     max 0 (min 100
       (100 - 20 * real (count_severity ''critical'' issues)
            - 10 * real (count_severity ''high'' issues)
            - 5 * real (count_severity ''medium'' issues)
            - 2 * real (count_severity ''low'' issues)
            + rubric_bonus ms))"

definition known_severity :: "issue \<Rightarrow> bool" where
  "known_severity i =
     (get_severity i \<in> {''critical'', ''high'', ''medium'', ''low''})"

lemma foldl_deduct:
  "list_all known_severity issues \<Longrightarrow>
   foldl deduct b issues =
     b - 20 * real (count_severity ''critical'' issues)
       - 10 * real (count_severity ''high'' issues)
       - 5 * real (count_severity ''medium'' issues)
       - 2 * real (count_severity ''low'' issues)"
proof (induction issues arbitrary: b)
  case Nil
  show ?case by (simp add: count_severity_def)
next
  case (Cons i issues)
  from Cons.prems have k: "known_severity i" and ks: "list_all known_severity issues"
    by simp_all
  from k show ?case
    unfolding foldl_Cons Cons.IH [OF ks]
    by (auto simp: known_severity_def deduct_def count_severity_def)
qed

lemma deduct_other_severity:
  "get_severity i \<notin> {''critical'', ''high'', ''medium''} \<Longrightarrow> deduct b i = b - 2"
  by (simp add: deduct_def)

lemma signal_Cons:
  "signal ((k, v) # ms) name bound =
     (if name = k then v \<ge> bound else signal ms name bound)"
  by (simp add: signal_def)

lemma signal_absent: "name \<notin> fst ` set ms \<Longrightarrow> \<not> signal ms name bound"
  by (simp add: signal_def map_of_eq_None_iff [THEN iffD2])

lemma foldl_reward:
  "distinct (map fst ms) \<Longrightarrow> foldl reward b ms = b + rubric_bonus ms"
proof (induction ms arbitrary: b)
  case Nil
  show ?case by (simp add: rubric_bonus_def signal_def)
next
  case (Cons m ms)
  obtain k v where m: "m = (k, v)" by (cases m)
  from Cons.prems m have fresh: "k \<notin> fst ` set ms" and d: "distinct (map fst ms)"
    by simp_all
  show ?case
    unfolding m foldl_Cons Cons.IH [OF d]
    using fresh
    by (auto simp: reward_def rubric_bonus_def signal_Cons signal_absent)
qed

lemma rubric_bonus_bounds: "0 \<le> rubric_bonus ms \<and> rubric_bonus ms \<le> 15"
  by (simp add: rubric_bonus_def)

text \<open>
  Claim C1. For every list of findings (each of severity critical, high, medium or low)
  and every metrics dictionary, the score computed by \<open>calculate_quality_score\<close> is
  100 minus 20 per critical, 10 per high, 5 per medium and 2 per low finding, plus a
  bonus that lies between 0 and 15, clamped to the interval from 0 to 100.
\<close>

theorem calculate_quality_score_policy:
  assumes "list_all known_severity issues" and "distinct (map fst ms)"
  shows "calculate_quality_score issues ms = policy_score issues ms
         \<and> 0 \<le> rubric_bonus ms \<and> rubric_bonus ms \<le> 15
         \<and> 0 \<le> calculate_quality_score issues ms
         \<and> calculate_quality_score issues ms \<le> 100"
proof -
  have "calculate_quality_score issues ms = policy_score issues ms"
    unfolding calculate_quality_score_def policy_score_def
    by (simp only: foldl_reward [OF assms(2)] foldl_deduct [OF assms(1)])
  moreover have "0 \<le> calculate_quality_score issues ms"
    and "calculate_quality_score issues ms \<le> 100"
    by (simp_all add: calculate_quality_score_def)
  ultimately show ?thesis using rubric_bonus_bounds by simp
qed

theorem calculate_quality_score_policy_witness:
  "list_all known_severity [[''severity'' \<mapsto> ''critical''], [''severity'' \<mapsto> ''medium''], Map.empty]
   \<and> distinct (map fst [(''test_coverage'', 95 :: real), (''docstring_coverage'', 40)])
   \<and> calculate_quality_score
         [[''severity'' \<mapsto> ''critical''], [''severity'' \<mapsto> ''medium''], Map.empty]
         [(''test_coverage'', 95), (''docstring_coverage'', 40)] = 83
   \<and> policy_score
         [[''severity'' \<mapsto> ''critical''], [''severity'' \<mapsto> ''medium''], Map.empty]
         [(''test_coverage'', 95), (''docstring_coverage'', 40)] = 83"
proof -
  let ?issues = "[[''severity'' \<mapsto> ''critical''], [''severity'' \<mapsto> ''medium''], Map.empty] :: issue list"
  let ?ms = "[(''test_coverage'', 95 :: real), (''docstring_coverage'', 40)]"
  have h1: "list_all known_severity ?issues"
    by (simp add: known_severity_def get_severity_def)
  have h2: "distinct (map fst ?ms)"
    by simp
  have v: "calculate_quality_score ?issues ?ms = 83"
    by (simp add: calculate_quality_score_def deduct_def reward_def get_severity_def)
  from calculate_quality_score_policy [OF h1 h2] v h1 h2 show ?thesis
    by simp
qed

section \<open>The iterative development loop (\<open>iterative_develop\<close>)\<close>

text \<open>
  \<^verbatim>\<open>
  def iterative_develop(requirements, max_iterations=5):
      current_files = FilesDict({})
      iteration = 0
      while iteration < max_iterations and not is_complete():
          new_files = generate_with_supervision(current_task)
          current_files.update(new_files)
          test_result = test_ai.execute_tests(current_files)
          quality_report = supervisor_ai.analyze_quality(current_files)
          if test_result.passed and quality_report.acceptable:
              mark_task_complete()
          else:
              issues = analyze_issues(test_result, quality_report)
              add_fixes_to_plan(issues)
          iteration += 1
      return current_files
  \<close>
  A \<open>FilesDict\<close> maps a path to a file body and keeps insertion order: setting a key
  that is present replaces its value in place, a new key goes to the end, and
  \<open>update\<close> sets the entries of its argument one after the other.
\<close>

type_synonym files_dict = "(string \<times> string) list"

fun dict_set :: "'k \<Rightarrow> 'v \<Rightarrow> ('k \<times> 'v) list \<Rightarrow> ('k \<times> 'v) list" where
  "dict_set k v [] = [(k, v)]"
| "dict_set k v (e # d) = (if fst e = k then (k, v) # d else e # dict_set k v d)"

definition dict_update :: "('k \<times> 'v) list \<Rightarrow> ('k \<times> 'v) list \<Rightarrow> ('k \<times> 'v) list" where
  "dict_update d other = foldl (\<lambda>acc e. dict_set (fst e) (snd e) acc) d other"

record test_result =
  passed :: bool

text \<open>
  Modelled from the spec: the class of \<open>quality_report\<close> and the body of
  \<open>analyze_quality\<close> that fills it are not part of the sources. The Quality Gate
  of the specification returns a score and a list of findings, and its retry decision
  accepts a version whose score is at least the threshold and that has no finding of
  severity critical or high; \<open>acceptable\<close> is that test.
\<close>

record quality_report =
  score :: real
  findings :: "issue list"

definition blocking :: "issue \<Rightarrow> bool" where
  "blocking i = (get_severity i = ''critical'' \<or> get_severity i = ''high'')"

definition acceptable :: "real \<Rightarrow> quality_report \<Rightarrow> bool" where
  "acceptable threshold q = (score q \<ge> threshold \<and> \<not> list_ex blocking (findings q))"

definition default_threshold :: real where
  "default_threshold = 80"

text \<open>
  The state the loop reads and writes: its two local variables, the completion flag that
  \<open>is_complete\<close> reads and \<open>mark_task_complete\<close> sets, and the fixes that
  \<open>add_fixes_to_plan\<close> has added to the plan the developer works from.
\<close>

record dev_state =
  current_files :: files_dict
  iteration :: nat
  is_complete :: bool
  plan :: "issue list"

text \<open>
  The collaborators are calls to external services whose bodies are not part of the
  sources. Each is a parameter: a function of the arguments the source passes and of the
  number of the iteration that makes the call, since a service may answer the same
  question differently the next time.
\<close>

record workers =
  generate_with_supervision :: "nat \<Rightarrow> issue list \<Rightarrow> files_dict"
  execute_tests :: "nat \<Rightarrow> files_dict \<Rightarrow> test_result"
  analyze_quality :: "nat \<Rightarrow> files_dict \<Rightarrow> quality_report"
  analyze_issues :: "test_result \<Rightarrow> quality_report \<Rightarrow> issue list"
  quality_threshold :: real

definition default_max_iterations :: nat where
  "default_max_iterations = 5"

definition generate :: "workers \<Rightarrow> dev_state \<Rightarrow> dev_state" where
  "generate W s =
     (let new_files = generate_with_supervision W (iteration s) (plan s)
      in s\<lparr>current_files := dict_update (current_files s) new_files\<rparr>)"

definition decide :: "workers \<Rightarrow> test_result \<Rightarrow> quality_report \<Rightarrow> dev_state \<Rightarrow> dev_state" where
  "decide W t q s =
     (if passed t \<and> acceptable (quality_threshold W) q
      then s\<lparr>is_complete := True\<rparr>
      else (let issues = analyze_issues W t q in s\<lparr>plan := plan s @ issues\<rparr>))"

definition develop_step :: "workers \<Rightarrow> dev_state \<Rightarrow> dev_state" where
  "develop_step W s =
     (let s1 = generate W s;
          t = execute_tests W (iteration s) (current_files s1);
          q = analyze_quality W (iteration s) (current_files s1);
          s2 = decide W t q s1
      in s2\<lparr>iteration := iteration s2 + 1\<rparr>)"

definition loop_continues :: "nat \<Rightarrow> dev_state \<Rightarrow> bool" where
  "loop_continues max_iterations s = (iteration s < max_iterations \<and> \<not> is_complete s)"

function develop_loop :: "workers \<Rightarrow> nat \<Rightarrow> dev_state \<Rightarrow> dev_state" where
  "develop_loop W max_iterations s =
     (if loop_continues max_iterations s
      then develop_loop W max_iterations (develop_step W s)
      else s)"
  by pat_completeness auto
termination
  by (relation "measure (\<lambda>(W, m, s). m - iteration s)")
     (auto simp: develop_step_def decide_def generate_def loop_continues_def Let_def)

declare develop_loop.simps [simp del]

definition initial_state :: dev_state where
  "initial_state = \<lparr>current_files = [], iteration = 0, is_complete = False, plan = []\<rparr>"

definition iterative_develop :: "workers \<Rightarrow> string \<Rightarrow> nat \<Rightarrow> files_dict" where
  "iterative_develop W requirements max_iterations =
     current_files (develop_loop W max_iterations initial_state)"

text \<open>
  The states at the end of each pass through the loop body, in order: one entry per
  iteration that the loop executes. Its \<open>current_files\<close> are the versions produced.
\<close>

function loop_trace :: "workers \<Rightarrow> nat \<Rightarrow> dev_state \<Rightarrow> dev_state list" where
  "loop_trace W max_iterations s =
     (if loop_continues max_iterations s
      then develop_step W s # loop_trace W max_iterations (develop_step W s)
      else [])"
  by pat_completeness auto
termination
  by (relation "measure (\<lambda>(W, m, s). m - iteration s)")
     (auto simp: develop_step_def decide_def generate_def loop_continues_def Let_def)

declare loop_trace.simps [simp del]

text \<open>
  A run used to evaluate the loop: every call returns one file, \<open>app.py\<close>, whose body
  is \<open>v1\<close> in the first iteration and \<open>v2\<close> afterwards; the tests never pass; the
  first version scores 60 and the later one 40, each with one finding of severity high.
\<close>

definition sample_workers :: workers where
  "sample_workers =
     \<lparr>generate_with_supervision = (\<lambda>n p. [(''app.py'', if n = 0 then ''v1'' else ''v2'')]),
      execute_tests = (\<lambda>n fs. \<lparr>passed = False\<rparr>),
      analyze_quality = (\<lambda>n fs. \<lparr>score = (if fs = [(''app.py'', ''v1'')] then 60 else 40),
                                findings = [[''severity'' \<mapsto> ''high'']]\<rparr>),
      analyze_issues = (\<lambda>t q. findings q),
      quality_threshold = default_threshold\<rparr>"





text \<open>
  The versions that a run produces, each with the score its quality report gave it, and
  the best-scoring one among them (the earliest on a tie).
\<close>

definition version_score :: "workers \<Rightarrow> dev_state \<Rightarrow> real" where
  "version_score W s = score (analyze_quality W (iteration s - 1) (current_files s))"

definition versions :: "workers \<Rightarrow> nat \<Rightarrow> (files_dict \<times> real) list" where
  "versions W max_iterations =
     map (\<lambda>s. (current_files s, version_score W s)) (loop_trace W max_iterations initial_state)"

fun best_scoring :: "('a \<times> real) list \<Rightarrow> ('a \<times> real) option" where
  "best_scoring [] = None"
| "best_scoring (v # vs) =
     (case best_scoring vs of
        None \<Rightarrow> Some v
      | Some b \<Rightarrow> if snd b > snd v then Some b else Some v)"

text \<open>The paths of the files a state holds.\<close>

definition paths :: "dev_state \<Rightarrow> string set" where
  "paths s = fst ` set (current_files s)"

lemma iteration_develop_step: "iteration (develop_step W s) = iteration s + 1"
  by (simp add: develop_step_def decide_def generate_def Let_def)

lemma develop_loop_continue:
  "loop_continues m s \<Longrightarrow> develop_loop W m s = develop_loop W m (develop_step W s)"
  by (subst develop_loop.simps) simp

lemma develop_loop_stop: "\<not> loop_continues m s \<Longrightarrow> develop_loop W m s = s"
  by (subst develop_loop.simps) simp

lemma loop_trace_continue:
  "loop_continues m s \<Longrightarrow>
   loop_trace W m s = develop_step W s # loop_trace W m (develop_step W s)"
  by (subst loop_trace.simps) simp

lemma loop_trace_stop: "\<not> loop_continues m s \<Longrightarrow> loop_trace W m s = []"
  by (subst loop_trace.simps) simp

lemma develop_loop_last: "develop_loop W m s = last (s # loop_trace W m s)"
proof (induction W m s rule: develop_loop.induct)
  case (1 W m s)
  show ?case
  proof (cases "loop_continues m s")
    case True
    with "1.IH" show ?thesis
      by (simp add: develop_loop_continue loop_trace_continue)
  next
    case False
    then show ?thesis
      by (simp add: develop_loop_stop loop_trace_stop)
  qed
qed

lemma length_loop_trace:
  "iteration s \<le> m \<Longrightarrow>
   iteration s + length (loop_trace W m s) = iteration (develop_loop W m s)
   \<and> iteration (develop_loop W m s) \<le> m"
proof (induction W m s rule: develop_loop.induct)
  case (1 W m s)
  show ?case
  proof (cases "loop_continues m s")
    case True
    then have "iteration (develop_step W s) \<le> m"
      by (simp add: iteration_develop_step loop_continues_def)
    with "1.IH" True show ?thesis
      by (simp add: develop_loop_continue loop_trace_continue iteration_develop_step)
  next
    case False
    with "1.prems" show ?thesis
      by (simp add: develop_loop_stop loop_trace_stop)
  qed
qed

lemma develop_loop_exit:
  "iteration s \<le> m \<Longrightarrow>
   is_complete (develop_loop W m s) \<or> iteration (develop_loop W m s) = m"
proof (induction W m s rule: develop_loop.induct)
  case (1 W m s)
  show ?case
  proof (cases "loop_continues m s")
    case True
    then have "iteration (develop_step W s) \<le> m"
      by (simp add: iteration_develop_step loop_continues_def)
    with "1.IH" True show ?thesis
      by (simp add: develop_loop_continue)
  next
    case False
    with "1.prems" show ?thesis
      by (auto simp: develop_loop_stop loop_continues_def)
  qed
qed

lemmas eval_loop = develop_loop.simps loop_trace.simps develop_step_def generate_def decide_def
  loop_continues_def dict_update_def acceptable_def blocking_def get_severity_def Let_def

text \<open>
  Claim C3. The loop is total, and from the initial state it executes at most
  \<open>max_iterations\<close> iterations (5 by default): the number of passes through the body
  equals the final iteration count, which is at most \<open>max_iterations\<close>, and on exit
  the task is complete or the count has reached \<open>max_iterations\<close>.
\<close>

theorem develop_loop_within_max_iterations:
  "length (loop_trace W max_iterations initial_state) \<le> max_iterations
   \<and> length (loop_trace W max_iterations initial_state)
       = iteration (develop_loop W max_iterations initial_state)
   \<and> develop_loop W max_iterations initial_state
       = last (initial_state # loop_trace W max_iterations initial_state)
   \<and> (is_complete (develop_loop W max_iterations initial_state)
        \<or> iteration (develop_loop W max_iterations initial_state) = max_iterations)"
proof -
  have z: "iteration initial_state \<le> max_iterations" "iteration initial_state = 0"
    by (simp_all add: initial_state_def)
  from length_loop_trace [OF z(1), of W] z(2)
  have "length (loop_trace W max_iterations initial_state)
          = iteration (develop_loop W max_iterations initial_state)"
    and "iteration (develop_loop W max_iterations initial_state) \<le> max_iterations"
    by simp_all
  with develop_loop_exit [OF z(1), of W] develop_loop_last [of W max_iterations initial_state]
  show ?thesis by simp
qed

theorem develop_loop_within_max_iterations_witness:
  "length (loop_trace sample_workers default_max_iterations initial_state) = 5
   \<and> length (loop_trace sample_workers default_max_iterations initial_state)
        \<le> default_max_iterations
   \<and> iteration (develop_loop sample_workers default_max_iterations initial_state) = 5
   \<and> \<not> is_complete (develop_loop sample_workers default_max_iterations initial_state)"
proof -
  have "\<not> is_complete (develop_loop sample_workers default_max_iterations initial_state)"
    by (simp add: eval_loop sample_workers_def default_max_iterations_def
          default_threshold_def initial_state_def)
  moreover from develop_loop_within_max_iterations [of sample_workers default_max_iterations]
  have "length (loop_trace sample_workers default_max_iterations initial_state)
          = iteration (develop_loop sample_workers default_max_iterations initial_state)"
    and "is_complete (develop_loop sample_workers default_max_iterations initial_state)
          \<or> iteration (develop_loop sample_workers default_max_iterations initial_state)
              = default_max_iterations"
    by blast+
  ultimately show ?thesis
    by (simp add: default_max_iterations_def)
qed






lemma keys_dict_set: "fst ` set (dict_set k v d) = insert k (fst ` set d)"
  by (induction d) auto

lemma keys_dict_update: "fst ` set (dict_update d other) = fst ` set d \<union> fst ` set other"
  unfolding dict_update_def
  by (induction other arbitrary: d) (auto simp: keys_dict_set)

lemma paths_develop_step: "paths s \<subseteq> paths (develop_step W s)"
  by (auto simp: paths_def develop_step_def decide_def generate_def Let_def keys_dict_update)

lemma paths_develop_loop:
  "paths s \<subseteq> paths (develop_loop W m s)
   \<and> list_all (\<lambda>v. paths v \<subseteq> paths (develop_loop W m s)) (loop_trace W m s)"
proof (induction W m s rule: develop_loop.induct)
  case (1 W m s)
  show ?case
  proof (cases "loop_continues m s")
    case True
    with "1.IH" paths_develop_step [of s W] show ?thesis
      by (auto simp: develop_loop_continue loop_trace_continue)
  next
    case False
    then show ?thesis
      by (simp add: develop_loop_stop loop_trace_stop)
  qed
qed

text \<open>
  Claim C4, as amended. When the loop has used up \<open>max_iterations\<close> iterations
  without passing the gate, \<open>iterative_develop\<close> returns the files as they stand after
  the last iteration: the last version produced, whatever its score, into which every
  iteration's files have been merged, so that every path of every earlier version is
  still present. The function returns the files only, with no failure state or reason.
\<close>

theorem iterative_develop_exhausted:
  assumes "\<not> is_complete (develop_loop W max_iterations initial_state)"
    and "0 < max_iterations"
  shows "length (loop_trace W max_iterations initial_state) = max_iterations
       \<and> iterative_develop W requirements max_iterations
           = current_files (last (loop_trace W max_iterations initial_state))
       \<and> list_all (\<lambda>v. fst ` set (current_files v)
                          \<subseteq> fst ` set (iterative_develop W requirements max_iterations))
           (loop_trace W max_iterations initial_state)"
proof -
  have z: "iteration initial_state \<le> max_iterations" "iteration initial_state = 0"
    by (simp_all add: initial_state_def)
  from develop_loop_exit [OF z(1), of W] assms(1)
  have "iteration (develop_loop W max_iterations initial_state) = max_iterations"
    by simp
  with length_loop_trace [OF z(1), of W] z(2)
  have len: "length (loop_trace W max_iterations initial_state) = max_iterations"
    by simp
  with assms(2) have ne: "loop_trace W max_iterations initial_state \<noteq> []"
    by auto
  have out: "iterative_develop W requirements max_iterations
           = current_files (last (loop_trace W max_iterations initial_state))"
    using ne by (simp add: iterative_develop_def develop_loop_last)
  from paths_develop_loop [of initial_state W max_iterations]
  have "list_all (\<lambda>v. fst ` set (current_files v)
                          \<subseteq> fst ` set (iterative_develop W requirements max_iterations))
           (loop_trace W max_iterations initial_state)"
    by (simp add: paths_def iterative_develop_def)
  with len out show ?thesis by simp
qed

theorem iterative_develop_exhausted_witness:
  "\<not> is_complete (develop_loop sample_workers 2 initial_state)
   \<and> length (loop_trace sample_workers 2 initial_state) = 2
   \<and> map current_files (loop_trace sample_workers 2 initial_state)
        = [[(''app.py'', ''v1'')], [(''app.py'', ''v2'')]]
   \<and> iterative_develop sample_workers ''todo app'' 2 = [(''app.py'', ''v2'')]"
proof -
  have h: "\<not> is_complete (develop_loop sample_workers 2 initial_state)"
    by (simp add: eval_loop sample_workers_def default_threshold_def initial_state_def)
  have t: "map current_files (loop_trace sample_workers 2 initial_state)
        = [[(''app.py'', ''v1'')], [(''app.py'', ''v2'')]]"
    by (simp add: eval_loop sample_workers_def default_threshold_def initial_state_def)
  have l: "current_files (last (loop_trace sample_workers 2 initial_state))
        = [(''app.py'', ''v2'')]"
    by (simp add: eval_loop sample_workers_def default_threshold_def initial_state_def)
  from iterative_develop_exhausted [OF h, of "''todo app''"] h t l show ?thesis
    by simp
qed

text \<open>
  Claim C4 as stated fails: in the sample run with two iterations the first version
  scores 60 and the second 40, neither passes, and the files returned are the second
  version, not the best-scoring one.
\<close>

theorem iterative_develop_best_counterexample:
  "versions sample_workers 2 = [([(''app.py'', ''v1'')], 60), ([(''app.py'', ''v2'')], 40)]
   \<and> best_scoring (versions sample_workers 2) = Some ([(''app.py'', ''v1'')], 60)
   \<and> \<not> is_complete (develop_loop sample_workers 2 initial_state)
   \<and> iterative_develop sample_workers ''todo app'' 2 = [(''app.py'', ''v2'')]"
  by (simp add: versions_def version_score_def iterative_develop_def eval_loop
        sample_workers_def default_threshold_def initial_state_def)

section \<open>The WebSocket client (\<open>WebSocketContext.jsx\<close>)\<close>

text \<open>
  The provider component keeps the connection in React state (\<open>isConnected\<close>,
  \<open>connectionStatus\<close>, \<open>reconnectAttempts\<close>, \<open>lastMessage\<close>,
  \<open>messageHistory\<close>) and in three refs (\<open>websocketRef\<close>,
  \<open>reconnectTimeoutRef\<close>, \<open>heartbeatIntervalRef\<close>).
  \<^verbatim>\<open>
  const RECONNECT_INTERVAL = 5000;
  const HEARTBEAT_INTERVAL = 30000;
  const MAX_RECONNECT_ATTEMPTS = 10;
  const [reconnectAttempts, setReconnectAttempts] = useState(0);

  websocketRef.current.onclose = (event) => {
    setIsConnected(false);
    setConnectionStatus('disconnected');
    stopHeartbeat();
    if (event.code !== 1000 && reconnectAttempts < MAX_RECONNECT_ATTEMPTS) {
      scheduleReconnect();
    }
  };

  const scheduleReconnect = () => {
    if (reconnectAttempts >= MAX_RECONNECT_ATTEMPTS) {
      showNotification(..., 'error');
      return;
    }
    setConnectionStatus('reconnecting');
    setReconnectAttempts(prev => prev + 1);
    const delay = Math.min(RECONNECT_INTERVAL * Math.pow(2, reconnectAttempts), 30000);
    reconnectTimeoutRef.current = setTimeout(() => { connect(); }, delay);
  };

  const startHeartbeat = () => {
    heartbeatIntervalRef.current = setInterval(() => {
      if (websocketRef.current?.readyState === WebSocket.OPEN) {
        sendMessage({ type: 'ping', timestamp: new Date().toISOString() });
      }
    }, HEARTBEAT_INTERVAL);
  };
  \<close>
  \<open>reconnectAttempts\<close> is a constant of one render of the component. The functions
  \<open>connect\<close> and \<open>scheduleReconnect\<close> and the handlers that \<open>connect\<close>
  installs on the socket are created in a render and read the \<open>reconnectAttempts\<close>
  of that render, whatever the state has become since; \<open>setReconnectAttempts\<close>
  changes the state that the next render will read. The model passes that constant to
  each function as its closure, and stores with every socket and with every timer the
  closure of the handlers and of the callback they carry. The timer's callback calls
  the \<open>connect\<close> of the render that created it, so it passes its closure on.

  The three refs are shared by everything the component has created. \<open>connect\<close>
  and \<open>disconnect\<close> put another socket, or none, into \<open>websocketRef\<close> without
  waiting for the events of the socket that was there; \<open>scheduleReconnect\<close>
  overwrites \<open>reconnectTimeoutRef\<close> without clearing the timer it held, and
  \<open>startHeartbeat\<close> does the same with \<open>heartbeatIntervalRef\<close>. So the model
  keeps every socket, every reconnect timer and every heartbeat interval the component
  has created, numbered in the order of their creation, and a ref holds the number of
  the one it points to. The handlers of a socket that has left the ref still run at its
  events, on the shared state and refs; a timer that has left the ref stays pending, and
  an interval that has left it keeps firing.

  Events are the calls the browser and React make into the component: a call of the
  \<open>connect\<close> of the current render (by the effect, or by a consumer of the context),
  the open, message, close and error events of a socket, a firing of a heartbeat interval
  (one every \<open>HEARTBEAT_INTERVAL\<close> milliseconds, with the clock reading that goes
  into the ping), the firing of a reconnect timer, and \<open>disconnect\<close>. An event that
  its socket cannot raise in the state it is in, the firing of a cleared interval and
  the firing of a timer that was cleared or has fired already change nothing. A message
  is a JSON object with string fields; data that does not parse is \<open>None\<close>. A
  notification is recorded by its level, and a message that was sent by the socket that
  took it. The user is taken to be authenticated and the \<open>WebSocket\<close> constructor
  not to throw; the handlers other components register are not modelled.
\<close>

datatype ready_state = CONNECTING | OPEN | CLOSING | CLOSED

datatype connection_status = Disconnected | Connecting | Connected | Reconnecting | Errored

type_synonym message = "string \<rightharpoonup> string"

type_synonym closure = nat

record socket =
  socket_state :: ready_state
  socket_closure :: closure

record timeout =
  timer_delay :: nat
  timer_closure :: closure
  timer_pending :: bool

record ws_client =
  isConnected :: bool
  connectionStatus :: connection_status
  reconnectAttempts :: nat
  lastMessage :: "message option"
  messageHistory :: "message list"
  sockets :: "socket list"
  websocketRef :: "nat option"
  timeouts :: "timeout list"
  reconnectTimeoutRef :: "nat option"
  intervals :: "bool list"
  heartbeatIntervalRef :: "nat option"
  sent :: "(nat \<times> message) list"
  notifications :: "string list"

definition RECONNECT_INTERVAL :: nat where
  "RECONNECT_INTERVAL = 5000"

definition HEARTBEAT_INTERVAL :: nat where
  "HEARTBEAT_INTERVAL = 30000"

definition MAX_RECONNECT_ATTEMPTS :: nat where
  "MAX_RECONNECT_ATTEMPTS = 10"

definition readyState :: "ws_client \<Rightarrow> ready_state option" where
  "readyState s =
     (case websocketRef s of
        None \<Rightarrow> None
      | Some i \<Rightarrow>
          if i < length (sockets s) then Some (socket_state (sockets s ! i)) else None)"

definition showNotification :: "string \<Rightarrow> ws_client \<Rightarrow> ws_client" where
  "showNotification level s = s\<lparr>notifications := notifications s @ [level]\<rparr>"

definition sendMessage :: "message \<Rightarrow> ws_client \<Rightarrow> ws_client" where
  "sendMessage m s =
     (case websocketRef s of
        Some i \<Rightarrow>
          if readyState s = Some OPEN then s\<lparr>sent := sent s @ [(i, m)]\<rparr>
          else showNotification ''warning'' s
      | None \<Rightarrow> showNotification ''warning'' s)"

definition startHeartbeat :: "ws_client \<Rightarrow> ws_client" where
  "startHeartbeat s =
     s\<lparr>intervals := intervals s @ [True],
       heartbeatIntervalRef := Some (length (intervals s))\<rparr>"

definition stopHeartbeat :: "ws_client \<Rightarrow> ws_client" where
  "stopHeartbeat s =
     (case heartbeatIntervalRef s of
        Some j \<Rightarrow> s\<lparr>intervals := (intervals s)[j := False], heartbeatIntervalRef := None\<rparr>
      | None \<Rightarrow> s)"

definition ping :: "string \<Rightarrow> message" where
  "ping now = [''type'' \<mapsto> ''ping'', ''timestamp'' \<mapsto> now]"

definition heartbeat :: "string \<Rightarrow> ws_client \<Rightarrow> ws_client" where
  "heartbeat now s = (if readyState s = Some OPEN then sendMessage (ping now) s else s)"

definition clearTimeout :: "nat \<Rightarrow> timeout list \<Rightarrow> timeout list" where
  "clearTimeout k ts = (if k < length ts then ts[k := (ts ! k)\<lparr>timer_pending := False\<rparr>] else ts)"

definition clearReconnectTimeout :: "ws_client \<Rightarrow> ws_client" where
  "clearReconnectTimeout s =
     (case reconnectTimeoutRef s of
        Some k \<Rightarrow> s\<lparr>timeouts := clearTimeout k (timeouts s), reconnectTimeoutRef := None\<rparr>
      | None \<Rightarrow> s)"

definition connect :: "closure \<Rightarrow> ws_client \<Rightarrow> ws_client" where
  "connect c s =
     (if readyState s = Some OPEN then s
      else s\<lparr>connectionStatus := Connecting,
             sockets := sockets s @ [\<lparr>socket_state = CONNECTING, socket_closure = c\<rparr>],
             websocketRef := Some (length (sockets s))\<rparr>)"

definition scheduleReconnect :: "closure \<Rightarrow> ws_client \<Rightarrow> ws_client" where
  "scheduleReconnect c s =
     (if c \<ge> MAX_RECONNECT_ATTEMPTS then showNotification ''error'' s
      else (let delay = min (RECONNECT_INTERVAL * 2 ^ c) 30000
            in s\<lparr>connectionStatus := Reconnecting,
                 reconnectAttempts := reconnectAttempts s + 1,
                 timeouts := timeouts s @
                   [\<lparr>timer_delay = delay, timer_closure = c, timer_pending = True\<rparr>],
                 reconnectTimeoutRef := Some (length (timeouts s))\<rparr>))"

definition onopen :: "ws_client \<Rightarrow> ws_client" where
  "onopen s =
     showNotification ''success''
       (startHeartbeat (s\<lparr>isConnected := True, connectionStatus := Connected,
                           reconnectAttempts := 0\<rparr>))"

definition handleMessage :: "message \<Rightarrow> ws_client \<Rightarrow> ws_client" where
  "handleMessage m s =
     (let t = m ''type'' in
      if t = Some ''pong'' then s
      else if t = Some ''connection_established'' then s
      else if t = Some ''error_notification'' then showNotification ''error'' s
      else if t = Some ''system_announcement''
        then showNotification (if m ''priority'' = Some ''high'' then ''warning'' else ''info'') s
      else if t = Some ''progress_update'' then s
      else if t = Some ''ai_status_update'' then showNotification ''info'' s
      else if t = Some ''ai_response'' then s
      else if t = Some ''frontend_preview_ready'' then showNotification ''success'' s
      else if t = Some ''project_created'' then showNotification ''success'' s
      else if t = Some ''development_started'' then showNotification ''success'' s
      else if t = Some ''final_test_completed'' then showNotification ''success'' s
      else s)"

definition onmessage :: "message option \<Rightarrow> ws_client \<Rightarrow> ws_client" where
  "onmessage d s =
     (case d of
        None \<Rightarrow> s
      | Some m \<Rightarrow>
          handleMessage m
            (s\<lparr>lastMessage := Some m,
               messageHistory :=
                 drop (length (messageHistory s) - 99) (messageHistory s) @ [m]\<rparr>))"

definition onclose :: "closure \<Rightarrow> nat \<Rightarrow> ws_client \<Rightarrow> ws_client" where
  "onclose c code s =
     (let s1 = stopHeartbeat (s\<lparr>isConnected := False, connectionStatus := Disconnected\<rparr>)
      in if code \<noteq> 1000 \<and> c < MAX_RECONNECT_ATTEMPTS then scheduleReconnect c s1 else s1)"

definition onerror :: "ws_client \<Rightarrow> ws_client" where
  "onerror s = showNotification ''error'' (s\<lparr>connectionStatus := Errored\<rparr>)"

definition close_socket :: "nat \<Rightarrow> socket list \<Rightarrow> socket list" where
  "close_socket i ss =
     (if i < length ss
         \<and> (socket_state (ss ! i) = CONNECTING \<or> socket_state (ss ! i) = OPEN)
      then ss[i := (ss ! i)\<lparr>socket_state := CLOSING\<rparr>] else ss)"

definition set_state :: "nat \<Rightarrow> ready_state \<Rightarrow> ws_client \<Rightarrow> ws_client" where
  "set_state i rs s = s\<lparr>sockets := (sockets s)[i := (sockets s ! i)\<lparr>socket_state := rs\<rparr>]\<rparr>"

definition disconnect :: "ws_client \<Rightarrow> ws_client" where
  "disconnect s =
     (let s1 = (case websocketRef s of
                  Some i \<Rightarrow> s\<lparr>sockets := close_socket i (sockets s), websocketRef := None\<rparr>
                | None \<Rightarrow> s)
      in (clearReconnectTimeout (stopHeartbeat s1))
           \<lparr>isConnected := False, connectionStatus := Disconnected\<rparr>)"

datatype event =
    Render_connect
  | Socket_open nat
  | Socket_message nat "message option"
  | Socket_close nat nat
  | Socket_error nat
  | Heartbeat_tick nat string
  | Reconnect_timeout nat
  | Disconnect

fun step :: "event \<Rightarrow> ws_client \<Rightarrow> ws_client" where
  "step Render_connect s = connect (reconnectAttempts s) s"
| "step (Socket_open i) s =
     (if i < length (sockets s) \<and> socket_state (sockets s ! i) = CONNECTING
      then onopen (set_state i OPEN s) else s)"
| "step (Socket_message i d) s =
     (if i < length (sockets s) \<and> socket_state (sockets s ! i) = OPEN
      then onmessage d s else s)"
| "step (Socket_close i code) s =
     (if i < length (sockets s) \<and> socket_state (sockets s ! i) \<noteq> CLOSED
      then onclose (socket_closure (sockets s ! i)) code (set_state i CLOSED s) else s)"
| "step (Socket_error i) s =
     (if i < length (sockets s) \<and> socket_state (sockets s ! i) \<noteq> CLOSED
      then onerror s else s)"
| "step (Heartbeat_tick j now) s =
     (if j < length (intervals s) \<and> intervals s ! j then heartbeat now s else s)"
| "step (Reconnect_timeout k) s =
     (if k < length (timeouts s) \<and> timer_pending (timeouts s ! k)
      then connect (timer_closure (timeouts s ! k))
             (s\<lparr>timeouts := (timeouts s)[k := (timeouts s ! k)\<lparr>timer_pending := False\<rparr>]\<rparr>)
      else s)"
| "step Disconnect s = disconnect s"

definition run :: "event list \<Rightarrow> ws_client \<Rightarrow> ws_client" where
  "run es s = foldl (\<lambda>s e. step e s) s es"

definition mounted :: ws_client where
  "mounted =
     \<lparr>isConnected = False, connectionStatus = Disconnected, reconnectAttempts = 0,
      lastMessage = None, messageHistory = [], sockets = [], websocketRef = None,
      timeouts = [], reconnectTimeoutRef = None, intervals = [],
      heartbeatIntervalRef = None, sent = [], notifications = []\<rparr>"

text \<open>
  \<open>failed_attempts n\<close> is a run of \<open>n\<close> connection attempts that each end in an
  abnormal close (code 1006) followed by the firing of the reconnect timer which that
  close has set: the \<open>i\<close>-th attempt is made on socket \<open>i\<close> and sets timer
  \<open>i\<close>. \<open>closed_socket\<close> and \<open>fired_timeout\<close> are what such an attempt
  leaves behind.
\<close>

fun failed_attempts :: "nat \<Rightarrow> event list" where
  "failed_attempts 0 = []"
| "failed_attempts (Suc n) = failed_attempts n @ [Socket_close n 1006, Reconnect_timeout n]"

definition closed_socket :: socket where
  "closed_socket = \<lparr>socket_state = CLOSED, socket_closure = 0\<rparr>"

definition fired_timeout :: timeout where
  "fired_timeout = \<lparr>timer_delay = 5000, timer_closure = 0, timer_pending = False\<rparr>"

lemmas client_defs = run_def mounted_def connect_def onclose_def scheduleReconnect_def
  stopHeartbeat_def startHeartbeat_def onopen_def showNotification_def readyState_def
  heartbeat_def sendMessage_def onmessage_def handleMessage_def onerror_def disconnect_def
  clearReconnectTimeout_def clearTimeout_def close_socket_def set_state_def
  MAX_RECONNECT_ATTEMPTS_def
  RECONNECT_INTERVAL_def Let_def

lemma run_Nil: "run [] s = s"
  by (simp add: run_def)

lemma run_Cons: "run (e # es) s = run es (step e s)"
  by (simp add: run_def)

lemma run_append: "run (es @ es') s = run es' (run es s)"
  by (simp add: run_def)

lemma update_last_replicate: "(replicate n x @ [y])[n := x] = x # replicate n x"
  by (simp add: list_update_append replicate_append_same)

lemma nth_Cons_replicate: "(x # replicate n x) ! n = x"
  using nth_replicate [of n "Suc n" x] by simp

lemma chain_state:
  "run (Render_connect # failed_attempts n) mounted
     = mounted\<lparr>connectionStatus := Connecting, reconnectAttempts := n,
                sockets := replicate n closed_socket
                            @ [\<lparr>socket_state = CONNECTING, socket_closure = 0\<rparr>],
                websocketRef := Some n,
                timeouts := replicate n fired_timeout,
                reconnectTimeoutRef := (if n = 0 then None else Some (n - 1))\<rparr>"
proof (induction n)
  case 0
  show ?case by (simp add: client_defs)
next
  case (Suc n)
  have "run (Render_connect # failed_attempts (Suc n)) mounted
          = run [Socket_close n 1006, Reconnect_timeout n]
              (run (Render_connect # failed_attempts n) mounted)"
    by (simp add: run_append [symmetric])
  also have "\<dots> = mounted\<lparr>connectionStatus := Connecting, reconnectAttempts := Suc n,
                sockets := replicate (Suc n) closed_socket
                            @ [\<lparr>socket_state = CONNECTING, socket_closure = 0\<rparr>],
                websocketRef := Some (Suc n),
                timeouts := replicate (Suc n) fired_timeout,
                reconnectTimeoutRef := Some n\<rparr>"
    unfolding Suc.IH
    by (simp add: client_defs closed_socket_def fired_timeout_def nth_append
          update_last_replicate nth_Cons_replicate)
  finally show ?case by simp
qed

lemma chain_delay:
  "timeouts (run (Render_connect # failed_attempts n @ [Socket_close n 1006]) mounted) ! n
     = \<lparr>timer_delay = 5000, timer_closure = 0, timer_pending = True\<rparr>
   \<and> reconnectTimeoutRef
       (run (Render_connect # failed_attempts n @ [Socket_close n 1006]) mounted) = Some n
   \<and> reconnectAttempts (run (Render_connect # failed_attempts n @ [Socket_close n 1006]) mounted)
     = n + 1"
proof -
  have "run (Render_connect # failed_attempts n @ [Socket_close n 1006]) mounted
          = run [Socket_close n 1006] (run (Render_connect # failed_attempts n) mounted)"
    by (simp add: run_append [symmetric])
  then show ?thesis
    unfolding chain_state by (simp add: client_defs nth_append)
qed

lemma onclose_clean:
  "timeouts (onclose c 1000 s) = timeouts s
   \<and> reconnectAttempts (onclose c 1000 s) = reconnectAttempts s"
  by (simp add: onclose_def stopHeartbeat_def split: option.splits)

lemma onclose_schedules:
  "code \<noteq> 1000 \<Longrightarrow> c < MAX_RECONNECT_ATTEMPTS \<Longrightarrow>
   timeouts (onclose c code s)
     = timeouts s @ [\<lparr>timer_delay = min (RECONNECT_INTERVAL * 2 ^ c) 30000,
                       timer_closure = c, timer_pending = True\<rparr>]
   \<and> reconnectAttempts (onclose c code s) = reconnectAttempts s + 1"
  by (simp add: onclose_def stopHeartbeat_def scheduleReconnect_def Let_def
        split: option.splits)

text \<open>
  The close event of a socket that \<open>disconnect\<close> has dropped arrives after the
  next socket has opened: its handler clears the heartbeat interval of the new socket
  and marks the component disconnected while the new socket is open.
\<close>

lemma dropped_socket_close:
  "intervals (run [Render_connect, Socket_open 0, Disconnect, Render_connect, Socket_open 1,
                   Socket_close 0 1000] mounted) = [False, False]
   \<and> readyState (run [Render_connect, Socket_open 0, Disconnect, Render_connect,
                   Socket_open 1, Socket_close 0 1000] mounted) = Some OPEN
   \<and> \<not> isConnected (run [Render_connect, Socket_open 0, Disconnect, Render_connect,
                   Socket_open 1, Socket_close 0 1000] mounted)"
  by (simp add: client_defs)

text \<open>
  A second call of \<open>connect\<close> while the first socket is still connecting drops that
  socket without closing it. When both sockets fail, each close sets a timer; the second
  overwrites the ref, so \<open>disconnect\<close> clears only the second timer, and the first
  still fires and opens a third socket.
\<close>

lemma superseded_timer:
  "timeouts (run [Render_connect, Render_connect, Socket_close 0 1006, Socket_close 1 1006,
                  Disconnect] mounted)
     = [\<lparr>timer_delay = 5000, timer_closure = 0, timer_pending = True\<rparr>,
        \<lparr>timer_delay = 5000, timer_closure = 0, timer_pending = False\<rparr>]
   \<and> websocketRef (run [Render_connect, Render_connect, Socket_close 0 1006,
                  Socket_close 1 1006, Disconnect] mounted) = None
   \<and> websocketRef (run [Render_connect, Render_connect, Socket_close 0 1006,
                  Socket_close 1 1006, Disconnect, Reconnect_timeout 0] mounted) = Some 2"
  by (simp add: client_defs)

text \<open>
  Claim C10. A close with code 1000 schedules nothing (\<open>onclose_clean\<close>), and a
  handler whose closure holds \<open>n < 10\<close> schedules a reconnect after
  \<open>min (5000 * 2 ^ n) 30000\<close> milliseconds (\<open>onclose_schedules\<close>). But along a
  chain of failed attempts every handler has the closure of the render that made the
  first call: the second failure schedules 5000 ms again where the claim says 10000, and
  after ten failures the eleventh is scheduled as well.
\<close>

theorem reconnect_chain_stale_closure:
  "timeouts
     (run [Render_connect, Socket_close 0 1006, Reconnect_timeout 0, Socket_close 1 1006]
        mounted)
     = [\<lparr>timer_delay = 5000, timer_closure = 0, timer_pending = False\<rparr>,
        \<lparr>timer_delay = 5000, timer_closure = 0, timer_pending = True\<rparr>]
   \<and> reconnectTimeoutRef
     (run [Render_connect, Socket_close 0 1006, Reconnect_timeout 0, Socket_close 1 1006]
        mounted) = Some 1
   \<and> reconnectAttempts
     (run [Render_connect, Socket_close 0 1006, Reconnect_timeout 0, Socket_close 1 1006]
        mounted) = 2
   \<and> min (RECONNECT_INTERVAL * 2 ^ 1) 30000 = 10000
   \<and> timeouts
     (run (Render_connect # failed_attempts 10 @ [Socket_close 10 1006]) mounted) ! 10
     = \<lparr>timer_delay = 5000, timer_closure = 0, timer_pending = True\<rparr>
   \<and> reconnectTimeoutRef
     (run (Render_connect # failed_attempts 10 @ [Socket_close 10 1006]) mounted) = Some 10
   \<and> reconnectAttempts
     (run (Render_connect # failed_attempts 10 @ [Socket_close 10 1006]) mounted) = 11"
proof -
  have "timeouts
     (run [Render_connect, Socket_close 0 1006, Reconnect_timeout 0, Socket_close 1 1006]
        mounted)
     = [\<lparr>timer_delay = 5000, timer_closure = 0, timer_pending = False\<rparr>,
        \<lparr>timer_delay = 5000, timer_closure = 0, timer_pending = True\<rparr>]"
    and "reconnectTimeoutRef
     (run [Render_connect, Socket_close 0 1006, Reconnect_timeout 0, Socket_close 1 1006]
        mounted) = Some 1"
    and "reconnectAttempts
     (run [Render_connect, Socket_close 0 1006, Reconnect_timeout 0, Socket_close 1 1006]
        mounted) = 2"
    by (simp_all add: client_defs)
  with chain_delay [of 10] show ?thesis
    by (simp add: RECONNECT_INTERVAL_def)
qed

section \<open>Retrieval of similar cases (\<open>find_similar_cases\<close>)\<close>

text \<open>
  \<^verbatim>\<open>
  def find_similar_cases(context):
      keywords = extract_keywords(context)
      event_similarities = find_similar_events(keywords)
      knowledge_similarities = find_similar_knowledge(keywords)
      all_cases = event_similarities + knowledge_similarities
      sorted_cases = sort_by_similarity(all_cases, context)
      return sorted_cases[:10]
  \<close>
  The four helpers are not part of the sources and are parameters of the model; a case
  is whatever they return. The function takes the context alone, and the number of
  cases it keeps is the constant 10.
\<close>

record 'c memory =
  extract_keywords :: "string \<Rightarrow> string list"
  find_similar_events :: "string list \<Rightarrow> 'c list"
  find_similar_knowledge :: "string list \<Rightarrow> 'c list"
  sort_by_similarity :: "'c list \<Rightarrow> string \<Rightarrow> 'c list"

definition all_cases :: "'c memory \<Rightarrow> string \<Rightarrow> 'c list" where
  "all_cases M context =
     (let keywords = extract_keywords M context;
          event_similarities = find_similar_events M keywords;
          knowledge_similarities = find_similar_knowledge M keywords
      in event_similarities @ knowledge_similarities)"

definition find_similar_cases :: "'c memory \<Rightarrow> string \<Rightarrow> 'c list" where
  "find_similar_cases M context =
     (let sorted_cases = sort_by_similarity M (all_cases M context) context
      in take 10 sorted_cases)"

lemma find_similar_cases_prefix:
  "find_similar_cases M context @ drop 10 (sort_by_similarity M (all_cases M context) context)
     = sort_by_similarity M (all_cases M context) context"
  by (simp add: find_similar_cases_def)

lemma length_find_similar_cases:
  "length (find_similar_cases M context)
     = min 10 (length (sort_by_similarity M (all_cases M context) context))"
  by (simp add: find_similar_cases_def min.commute)

section \<open>The Event Hub\<close>

text \<open>
  Modelled from the spec: the Event Hub (\<open>publish\<close>, \<open>subscribe\<close>, the per-run ring
  buffer and the per-subscriber queues) is not part of the sources, which hold only the
  client that receives the events. An Event carries its per-run sequence number and
  whether it is a terminal or failure event. A Subscription holds the bounded queue of
  events not yet handed to the observer; the model also records the events it has handed
  over (the last of them carries the last-delivered sequence number), how many events it
  has dropped, and whether it has answered a replay request with a gap event. The Hub of
  one run holds the next sequence number, the ring buffer (size \<open>ring_size\<close>, 100 by
  default), the live Subscriptions by observer id, and the bound of their queues.
\<close>

record run_event =
  seq :: nat
  terminal :: bool
  payload :: string

record subscription =
  queue :: "run_event list"
  delivered :: "run_event list"
  dropped :: nat
  gap :: bool

record hub =
  next_seq :: nat
  ring :: "run_event list"
  subs :: "nat \<rightharpoonup> subscription"
  ring_size :: nat
  queue_bound :: nat

definition empty_hub :: "nat \<Rightarrow> nat \<Rightarrow> hub" where
  "empty_hub n q =
     \<lparr>next_seq = 0, ring = [], subs = Map.empty, ring_size = n, queue_bound = q\<rparr>"

definition default_ring_size :: nat where
  "default_ring_size = 100"

text \<open>
  Modelled from the spec: "fan-out is non-blocking per subscriber, using a per-subscriber
  bounded queue; on overflow, drop oldest non-terminal events but never drop
  terminal/failure events". An event that meets a queue below its bound is appended.
  One that meets a full queue is appended and the oldest non-terminal event of the queue
  is dropped; when every event in it is terminal, none is dropped.
\<close>

fun drop_oldest_nonterminal :: "run_event list \<Rightarrow> run_event list" where
  "drop_oldest_nonterminal [] = []"
| "drop_oldest_nonterminal (e # es) =
     (if terminal e then e # drop_oldest_nonterminal es else es)"

definition enqueue :: "nat \<Rightarrow> subscription \<Rightarrow> run_event \<Rightarrow> subscription" where
  "enqueue bound sub e =
     (if length (queue sub) < bound then sub\<lparr>queue := queue sub @ [e]\<rparr>
      else (let kept = drop_oldest_nonterminal (queue sub @ [e])
            in sub\<lparr>queue := kept,
                   dropped := dropped sub + (length (queue sub) + 1 - length kept)\<rparr>))"

text \<open>
  Modelled from the spec: \<open>publish\<close> "appends to the run's ring buffer, assigns the
  next sequence number, then delivers to every live Subscription"; \<open>subscribe\<close>
  "registers a Subscription and, if sinceSeq is given and still present in the ring
  buffer, replays missed events before switching to live delivery; if the requested
  sequence has aged out of the buffer, responds with a gap event". \<open>deliver\<close> hands
  the head of an observer's queue to the observer.
\<close>

definition publish :: "bool \<Rightarrow> string \<Rightarrow> hub \<Rightarrow> hub" where
  "publish t p h =
     (let e = \<lparr>seq = next_seq h, terminal = t, payload = p\<rparr>
      in h\<lparr>ring := drop (length (ring h) + 1 - ring_size h) (ring h @ [e]),
            next_seq := next_seq h + 1,
            subs := (\<lambda>observer. map_option (\<lambda>sub. enqueue (queue_bound h) sub e)
                                  (subs h observer))\<rparr>)"

definition fresh_subscription :: subscription where
  "fresh_subscription = \<lparr>queue = [], delivered = [], dropped = 0, gap = False\<rparr>"

definition subscribe :: "nat \<Rightarrow> nat option \<Rightarrow> hub \<Rightarrow> hub" where
  "subscribe observer sinceSeq h =
     (case sinceSeq of
        None \<Rightarrow> h\<lparr>subs := (subs h)(observer \<mapsto> fresh_subscription)\<rparr>
      | Some n \<Rightarrow>
          if list_ex (\<lambda>e. seq e = n) (ring h)
          then h\<lparr>subs := (subs h)(observer \<mapsto>
                   foldl (enqueue (queue_bound h)) fresh_subscription
                     (filter (\<lambda>e. n \<le> seq e) (ring h)))\<rparr>
          else h\<lparr>subs := (subs h)(observer \<mapsto> fresh_subscription\<lparr>gap := True\<rparr>)\<rparr>)"

definition unsubscribe :: "nat \<Rightarrow> hub \<Rightarrow> hub" where
  "unsubscribe observer h = h\<lparr>subs := (subs h)(observer := None)\<rparr>"

definition deliver :: "nat \<Rightarrow> hub \<Rightarrow> hub" where
  "deliver observer h =
     (case subs h observer of
        None \<Rightarrow> h
      | Some sub \<Rightarrow>
          (case queue sub of
             [] \<Rightarrow> h
           | e # es \<Rightarrow>
               h\<lparr>subs := (subs h)(observer \<mapsto>
                    sub\<lparr>queue := es, delivered := delivered sub @ [e]\<rparr>)\<rparr>))"

text \<open>
  A history of the Hub is a list of operations. An observer stays connected through the
  operations that neither subscribe it anew nor unsubscribe it. A list of sequence
  numbers is gapless when each is the successor of the one before.
\<close>

datatype hub_op =
    Publish bool string
  | Deliver nat
  | Subscribe nat "nat option"
  | Unsubscribe nat

fun exec_op :: "hub_op \<Rightarrow> hub \<Rightarrow> hub" where
  "exec_op (Publish t p) h = publish t p h"
| "exec_op (Deliver observer) h = deliver observer h"
| "exec_op (Subscribe observer sinceSeq) h = subscribe observer sinceSeq h"
| "exec_op (Unsubscribe observer) h = unsubscribe observer h"

definition exec_ops :: "hub_op list \<Rightarrow> hub \<Rightarrow> hub" where
  "exec_ops ops h = foldl (\<lambda>h op. exec_op op h) h ops"

fun reconnects :: "nat \<Rightarrow> hub_op \<Rightarrow> bool" where
  "reconnects observer (Subscribe observer' sinceSeq) = (observer' = observer)"
| "reconnects observer (Unsubscribe observer') = (observer' = observer)"
| "reconnects observer op = False"

fun gapless :: "nat list \<Rightarrow> bool" where
  "gapless (x # y # zs) = (y = Suc x \<and> gapless (y # zs))"
| "gapless zs = True"

definition delivered_seqs :: "hub \<Rightarrow> nat \<Rightarrow> nat list" where
  "delivered_seqs h observer =
     (case subs h observer of None \<Rightarrow> [] | Some sub \<Rightarrow> map seq (delivered sub))"

definition dropped_events :: "hub \<Rightarrow> nat \<Rightarrow> nat" where
  "dropped_events h observer =
     (case subs h observer of None \<Rightarrow> 0 | Some sub \<Rightarrow> dropped sub)"

text \<open>
  The invariants: the sequence numbers a Subscription has delivered and holds queued, in
  that order, increase strictly and lie below the next sequence number, and as long as it
  has dropped nothing they are all the numbers from some start up to the next sequence
  number; the ring buffer holds the latest sequence numbers without a gap.
\<close>

definition seqs :: "subscription \<Rightarrow> nat list" where
  "seqs sub = map seq (delivered sub @ queue sub)"

definition sub_inv :: "nat \<Rightarrow> subscription \<Rightarrow> bool" where
  "sub_inv b sub =
     (sorted_wrt (<) (seqs sub) \<and> (\<forall>x \<in> set (seqs sub). x < b)
      \<and> (dropped sub = 0 \<longrightarrow> (\<exists>a \<le> b. seqs sub = [a..<b])))"

definition ring_inv :: "hub \<Rightarrow> bool" where
  "ring_inv h = (\<exists>r \<le> next_seq h. map seq (ring h) = [r..<next_seq h])"

definition obs_inv :: "hub \<Rightarrow> nat \<Rightarrow> bool" where
  "obs_inv h observer = (\<exists>sub. subs h observer = Some sub \<and> sub_inv (next_seq h) sub)"

lemmas hub_defs = exec_ops_def empty_hub_def publish_def subscribe_def unsubscribe_def
  deliver_def enqueue_def fresh_subscription_def delivered_seqs_def dropped_events_def Let_def

lemma exec_ops_Nil: "exec_ops [] h = h"
  by (simp add: exec_ops_def)

lemma exec_ops_Cons: "exec_ops (op # ops) h = exec_ops ops (exec_op op h)"
  by (simp add: exec_ops_def)

lemma exec_ops_append: "exec_ops (ops @ ops') h = exec_ops ops' (exec_ops ops h)"
  by (simp add: exec_ops_def)

lemma set_drop_oldest: "set (drop_oldest_nonterminal es) \<subseteq> set es"
  by (induction es) auto

lemma length_drop_oldest: "length (drop_oldest_nonterminal es) \<le> length es"
  by (induction es) auto

lemma drop_oldest_none:
  "length es \<le> length (drop_oldest_nonterminal es) \<Longrightarrow> drop_oldest_nonterminal es = es"
  by (induction es) (auto split: if_splits)

lemma sorted_drop_oldest:
  "sorted_wrt (<) (map seq es) \<Longrightarrow> sorted_wrt (<) (map seq (drop_oldest_nonterminal es))"
proof (induction es)
  case Nil
  show ?case by simp
next
  case (Cons e es)
  with set_drop_oldest [of es] show ?case by auto
qed

lemma sorted_append_drop_oldest:
  assumes "sorted_wrt (<) (map seq (d @ es))"
  shows "sorted_wrt (<) (map seq (d @ drop_oldest_nonterminal es))"
proof -
  from assms have "sorted_wrt (<) (map seq d)" and "sorted_wrt (<) (map seq es)"
    and "\<forall>x \<in> set d. \<forall>y \<in> set es. seq x < seq y"
    by (auto simp: sorted_wrt_append)
  with set_drop_oldest [of es] sorted_drop_oldest [of es] show ?thesis
    by (auto simp: sorted_wrt_append)
qed

lemma sub_inv_append:
  assumes "sub_inv b sub" and "seq e = b"
  shows "sub_inv (Suc b) (sub\<lparr>queue := queue sub @ [e]\<rparr>)"
proof -
  from assms(1) have s: "sorted_wrt (<) (seqs sub)" and l: "\<forall>x \<in> set (seqs sub). x < b"
    and c: "dropped sub = 0 \<longrightarrow> (\<exists>a \<le> b. seqs sub = [a..<b])"
    by (simp_all add: sub_inv_def)
  have eq: "seqs (sub\<lparr>queue := queue sub @ [e]\<rparr>) = seqs sub @ [b]"
    using assms(2) by (simp add: seqs_def)
  from s l have "sorted_wrt (<) (seqs sub @ [b])"
    by (simp add: sorted_wrt_append)
  moreover from l have "\<forall>x \<in> set (seqs sub @ [b]). x < Suc b"
    by auto
  moreover have "\<exists>a \<le> Suc b. seqs sub @ [b] = [a..<Suc b]" if "dropped sub = 0"
  proof -
    from that c obtain a where "a \<le> b" and "seqs sub = [a..<b]" by blast
    then have "a \<le> Suc b \<and> seqs sub @ [b] = [a..<Suc b]" by simp
    then show ?thesis by blast
  qed
  ultimately show ?thesis
    unfolding sub_inv_def eq by simp
qed

lemma sub_inv_enqueue:
  assumes "sub_inv b sub" and "seq e = b"
  shows "sub_inv (Suc b) (enqueue bound sub e)"
proof (cases "length (queue sub) < bound")
  case True
  with sub_inv_append [OF assms] show ?thesis
    by (simp add: enqueue_def)
next
  case False
  let ?kept = "drop_oldest_nonterminal (queue sub @ [e])"
  let ?sub' = "sub\<lparr>queue := ?kept,
                   dropped := dropped sub + (length (queue sub) + 1 - length ?kept)\<rparr>"
  from False have en: "enqueue bound sub e = ?sub'"
    by (simp add: enqueue_def Let_def)
  show ?thesis
  proof (cases "length (queue sub) + 1 \<le> length ?kept")
    case True
    then have "?kept = queue sub @ [e]"
      by (intro drop_oldest_none) simp
    with True have "?sub' = sub\<lparr>queue := queue sub @ [e]\<rparr>"
      by simp
    with sub_inv_append [OF assms] en show ?thesis
      by simp
  next
    case less: False
    from sub_inv_append [OF assms]
    have s: "sorted_wrt (<) (map seq (delivered sub @ (queue sub @ [e])))"
      and l: "\<forall>x \<in> set (map seq (delivered sub @ (queue sub @ [e]))). x < Suc b"
      by (simp_all add: sub_inv_def seqs_def)
    from sorted_append_drop_oldest [OF s]
    have "sorted_wrt (<) (seqs ?sub')"
      by (simp add: seqs_def)
    moreover from l set_drop_oldest [of "queue sub @ [e]"]
    have "\<forall>x \<in> set (seqs ?sub'). x < Suc b"
      by (auto simp: seqs_def)
    moreover from less have "dropped ?sub' \<noteq> 0"
      by simp
    ultimately show ?thesis
      unfolding en sub_inv_def by blast
  qed
qed

lemma sub_inv_replay:
  "sub_inv b sub \<Longrightarrow> map seq es = [b..<c] \<Longrightarrow> b \<le> c \<Longrightarrow>
   sub_inv c (foldl (enqueue bound) sub es)"
proof (induction es arbitrary: b sub)
  case Nil
  from Nil.prems(2) [symmetric] Nil.prems(3) have "b = c" by auto
  with Nil.prems(1) show ?case by simp
next
  case (Cons e es)
  from Cons.prems(2,3) have bc: "b < c"
    by (cases "b = c") auto
  with Cons.prems(2) have e: "seq e = b" and es: "map seq es = [Suc b..<c]"
    by (simp_all add: upt_conv_Cons)
  from sub_inv_enqueue [OF Cons.prems(1) e]
  have "sub_inv (Suc b) (enqueue bound sub e)" .
  from Cons.IH [OF this es] bc show ?case
    by simp
qed

lemma sub_inv_fresh:
  "sub_inv b fresh_subscription" "sub_inv b (fresh_subscription\<lparr>gap := True\<rparr>)"
  by (auto simp: sub_inv_def seqs_def fresh_subscription_def)

lemma filter_upt_from: "r \<le> n \<Longrightarrow> filter (\<lambda>x. n \<le> x) [r..<m] = [n..<m]"
  by (induction m) auto

lemma ring_replay:
  assumes "ring_inv h" and "list_ex (\<lambda>e. seq e = n) (ring h)"
  shows "map seq (filter (\<lambda>e. n \<le> seq e) (ring h)) = [n..<next_seq h] \<and> n \<le> next_seq h"
proof -
  from assms(1) obtain r where r: "map seq (ring h) = [r..<next_seq h]"
    by (auto simp: ring_inv_def)
  from assms(2) have "n \<in> set (map seq (ring h))"
    by (auto simp: list_ex_iff)
  with r have n: "r \<le> n" "n < next_seq h"
    by simp_all
  have "map seq (filter (\<lambda>e. n \<le> seq e) (ring h)) = filter (\<lambda>x. n \<le> x) (map seq (ring h))"
    by (simp add: filter_map o_def)
  with r n filter_upt_from [of r n "next_seq h"] show ?thesis
    by simp
qed

lemma ring_inv_empty: "ring_inv (empty_hub n q)"
  by (simp add: ring_inv_def empty_hub_def)

lemma ring_inv_exec_op: "ring_inv h \<Longrightarrow> ring_inv (exec_op op h)"
proof (cases op)
  case (Publish t p)
  assume "ring_inv h"
  then obtain r where r: "r \<le> next_seq h" "map seq (ring h) = [r..<next_seq h]"
    by (auto simp: ring_inv_def)
  let ?k = "length (ring h) + 1 - ring_size h"
  let ?e = "\<lparr>seq = next_seq h, terminal = t, payload = p\<rparr>"
  from r have "map seq (drop ?k (ring h @ [?e])) = drop ?k [r..<Suc (next_seq h)]"
    by (simp add: drop_map [symmetric] del: drop_append)
  also have "\<dots> = [r + ?k..<Suc (next_seq h)]"
    by (simp only: drop_upt)
  finally have m: "map seq (drop ?k (ring h @ [?e])) = [r + ?k..<Suc (next_seq h)]" .
  have "\<exists>r' \<le> Suc (next_seq h). [r + ?k..<Suc (next_seq h)] = [r'..<Suc (next_seq h)]"
  proof (cases "r + ?k \<le> Suc (next_seq h)")
    case True
    then show ?thesis by blast
  next
    case False
    then have "[r + ?k..<Suc (next_seq h)] = [Suc (next_seq h)..<Suc (next_seq h)]"
      by simp
    then show ?thesis by blast
  qed
  with m show ?thesis
    unfolding ring_inv_def Publish
    by (simp add: publish_def Let_def del: drop_append)
next
  case (Deliver observer)
  assume "ring_inv h"
  then show ?thesis
    by (simp add: Deliver ring_inv_def deliver_def split: option.splits list.splits)
next
  case (Subscribe observer sinceSeq)
  assume "ring_inv h"
  then show ?thesis
    by (simp add: Subscribe ring_inv_def subscribe_def split: option.splits)
next
  case (Unsubscribe observer)
  assume "ring_inv h"
  then show ?thesis
    by (simp add: Unsubscribe ring_inv_def unsubscribe_def)
qed

lemma ring_inv_exec_ops: "ring_inv h \<Longrightarrow> ring_inv (exec_ops ops h)"
  by (induction ops arbitrary: h) (simp_all add: exec_ops_Nil exec_ops_Cons ring_inv_exec_op)

lemma obs_inv_subscribe:
  assumes "ring_inv h"
  shows "obs_inv (subscribe observer sinceSeq h) observer"
proof (cases sinceSeq)
  case None
  then show ?thesis
    by (simp add: obs_inv_def subscribe_def sub_inv_fresh)
next
  case (Some n)
  show ?thesis
  proof (cases "list_ex (\<lambda>e. seq e = n) (ring h)")
    case True
    from ring_replay [OF assms True]
    have "sub_inv (next_seq h) (foldl (enqueue (queue_bound h)) fresh_subscription
                     (filter (\<lambda>e. n \<le> seq e) (ring h)))"
      by (intro sub_inv_replay [of n]) (simp_all add: sub_inv_fresh)
    with True Some show ?thesis
      by (simp add: obs_inv_def subscribe_def)
  next
    case False
    with Some show ?thesis
      by (simp add: obs_inv_def subscribe_def sub_inv_fresh)
  qed
qed

lemma obs_inv_exec_op:
  assumes "obs_inv h observer" and "\<not> reconnects observer op"
  shows "obs_inv (exec_op op h) observer"
proof -
  from assms(1) obtain sub where sub: "subs h observer = Some sub"
    and inv: "sub_inv (next_seq h) sub"
    by (auto simp: obs_inv_def)
  show ?thesis
  proof (cases op)
    case (Publish t p)
    from sub_inv_enqueue [OF inv, of "\<lparr>seq = next_seq h, terminal = t, payload = p\<rparr>"]
    show ?thesis
      by (simp add: Publish obs_inv_def publish_def Let_def sub)
  next
    case (Deliver observer')
    show ?thesis
    proof (cases "observer' = observer")
      case True
      show ?thesis
      proof (cases "queue sub")
        case Nil
        with sub inv True show ?thesis
          by (simp add: Deliver obs_inv_def deliver_def)
      next
        case (Cons e es)
        with inv have "sub_inv (next_seq h) (sub\<lparr>queue := es, delivered := delivered sub @ [e]\<rparr>)"
          by (simp add: sub_inv_def seqs_def)
        with sub True Cons show ?thesis
          by (simp add: Deliver obs_inv_def deliver_def)
      qed
    next
      case False
      with sub inv show ?thesis
        by (simp add: Deliver obs_inv_def deliver_def split: option.splits list.splits)
    qed
  next
    case (Subscribe observer' sinceSeq)
    with assms(2) have "observer' \<noteq> observer" by simp
    with sub inv show ?thesis
      by (simp add: Subscribe obs_inv_def subscribe_def split: option.splits)
  next
    case (Unsubscribe observer')
    with assms(2) have "observer' \<noteq> observer" by simp
    with sub inv show ?thesis
      by (simp add: Unsubscribe obs_inv_def unsubscribe_def)
  qed
qed

lemma obs_inv_exec_ops:
  "obs_inv h observer \<Longrightarrow> \<not> list_ex (reconnects observer) ops \<Longrightarrow>
   obs_inv (exec_ops ops h) observer"
  by (induction ops arbitrary: h) (simp_all add: exec_ops_Nil exec_ops_Cons obs_inv_exec_op)

lemma gapless_upt: "gapless [a..<b]"
proof (induction "b - a" arbitrary: a)
  case 0
  then show ?case by simp
next
  case (Suc d)
  then have ab: "a < b" by simp
  show ?case
  proof (cases "Suc a < b")
    case True
    from Suc have "gapless [Suc a..<b]" by simp
    with True ab show ?thesis
      by (simp add: upt_conv_Cons)
  next
    case False
    with ab show ?thesis
      by (simp add: upt_conv_Cons)
  qed
qed

lemma gapless_appendD: "gapless (xs @ ys) \<Longrightarrow> gapless xs"
  by (induction xs rule: gapless.induct) auto

lemma obs_inv_delivered:
  assumes "obs_inv h observer"
  shows "sorted_wrt (<) (delivered_seqs h observer)
       \<and> (dropped_events h observer = 0 \<longrightarrow> gapless (delivered_seqs h observer))"
proof -
  from assms obtain sub where sub: "subs h observer = Some sub"
    and inv: "sub_inv (next_seq h) sub"
    by (auto simp: obs_inv_def)
  from inv have s: "sorted_wrt (<) (map seq (delivered sub))"
    by (simp add: sub_inv_def seqs_def sorted_wrt_append)
  have "gapless (map seq (delivered sub))" if "dropped sub = 0"
  proof -
    from that inv obtain a where "map seq (delivered sub) @ map seq (queue sub) = [a..<next_seq h]"
      by (auto simp: sub_inv_def seqs_def)
    with gapless_upt [of a "next_seq h"]
    have "gapless (map seq (delivered sub) @ map seq (queue sub))"
      by simp
    then show ?thesis
      by (rule gapless_appendD)
  qed
  with s sub show ?thesis
    by (simp add: delivered_seqs_def dropped_events_def)
qed

text \<open>
  Claim C6, as amended. For every history of the Hub and every observer that stays
  connected after its subscription, the sequence numbers of the events delivered to it
  are strictly increasing; they have no gaps as long as none of its events has been
  dropped on overflow of its bounded queue.
\<close>

theorem delivered_sequence_numbers:
  assumes "\<not> list_ex (reconnects observer) later"
  shows "sorted_wrt (<)
           (delivered_seqs
              (exec_ops (earlier @ Subscribe observer sinceSeq # later) (empty_hub n q)) observer)
       \<and> (dropped_events
              (exec_ops (earlier @ Subscribe observer sinceSeq # later) (empty_hub n q)) observer = 0
            \<longrightarrow> gapless
              (delivered_seqs
                 (exec_ops (earlier @ Subscribe observer sinceSeq # later) (empty_hub n q))
                 observer))"
proof -
  have "ring_inv (exec_ops earlier (empty_hub n q))"
    by (rule ring_inv_exec_ops [OF ring_inv_empty])
  then have "obs_inv (subscribe observer sinceSeq (exec_ops earlier (empty_hub n q))) observer"
    by (rule obs_inv_subscribe)
  from obs_inv_exec_ops [OF this assms]
  have "obs_inv (exec_ops (earlier @ Subscribe observer sinceSeq # later) (empty_hub n q)) observer"
    by (simp add: exec_ops_append exec_ops_Cons)
  then show ?thesis
    by (rule obs_inv_delivered)
qed

theorem delivered_sequence_numbers_witness:
  "\<not> list_ex (reconnects 7)
        [Publish False ''c'', Deliver 7, Subscribe 8 None, Deliver 7, Publish True ''d'',
         Deliver 7, Deliver 8]
   \<and> delivered_seqs
        (exec_ops ([Publish False ''a'', Publish False ''b''] @ Subscribe 7 (Some 1) #
                   [Publish False ''c'', Deliver 7, Subscribe 8 None, Deliver 7,
                    Publish True ''d'', Deliver 7, Deliver 8])
           (empty_hub default_ring_size 2)) 7 = [1, 2, 3]
   \<and> dropped_events
        (exec_ops ([Publish False ''a'', Publish False ''b''] @ Subscribe 7 (Some 1) #
                   [Publish False ''c'', Deliver 7, Subscribe 8 None, Deliver 7,
                    Publish True ''d'', Deliver 7, Deliver 8])
           (empty_hub default_ring_size 2)) 7 = 0
   \<and> sorted_wrt (<) (delivered_seqs
        (exec_ops ([Publish False ''a'', Publish False ''b''] @ Subscribe 7 (Some 1) #
                   [Publish False ''c'', Deliver 7, Subscribe 8 None, Deliver 7,
                    Publish True ''d'', Deliver 7, Deliver 8])
           (empty_hub default_ring_size 2)) 7)
   \<and> gapless (delivered_seqs
        (exec_ops ([Publish False ''a'', Publish False ''b''] @ Subscribe 7 (Some 1) #
                   [Publish False ''c'', Deliver 7, Subscribe 8 None, Deliver 7,
                    Publish True ''d'', Deliver 7, Deliver 8])
           (empty_hub default_ring_size 2)) 7)"
proof -
  let ?later = "[Publish False ''c'', Deliver 7, Subscribe 8 None, Deliver 7, Publish True ''d'',
                 Deliver 7, Deliver 8]"
  let ?h = "exec_ops ([Publish False ''a'', Publish False ''b''] @ Subscribe 7 (Some 1) # ?later)
              (empty_hub default_ring_size 2)"
  have c: "\<not> list_ex (reconnects 7) ?later"
    by simp
  have d: "delivered_seqs ?h 7 = [1, 2, 3]"
    by (simp add: hub_defs default_ring_size_def)
  have z: "dropped_events ?h 7 = 0"
    by (simp add: hub_defs default_ring_size_def)
  from delivered_sequence_numbers [OF c, of "[Publish False ''a'', Publish False ''b'']" "Some 1"
         default_ring_size 2] z
  have "sorted_wrt (<) (delivered_seqs ?h 7)" and "gapless (delivered_seqs ?h 7)"
    by blast+
  with c d z show ?thesis
    by blast
qed

text \<open>
  Claim C6 as stated fails: an observer that stays connected but reads slowly, behind a
  queue of bound 2, loses the event with sequence number 1 and is delivered 0, 2, 3.
\<close>

theorem delivered_gap_counterexample:
  "delivered_seqs
     (exec_ops [Subscribe 7 None, Publish False ''a'', Deliver 7, Publish False ''b'',
                Publish False ''c'', Publish False ''d'', Deliver 7, Deliver 7]
        (empty_hub default_ring_size 2)) 7 = [0, 2, 3]
   \<and> \<not> gapless (delivered_seqs
     (exec_ops [Subscribe 7 None, Publish False ''a'', Deliver 7, Publish False ''b'',
                Publish False ''c'', Publish False ''d'', Deliver 7, Deliver 7]
        (empty_hub default_ring_size 2)) 7)
   \<and> dropped_events
     (exec_ops [Subscribe 7 None, Publish False ''a'', Deliver 7, Publish False ''b'',
                Publish False ''c'', Publish False ''d'', Deliver 7, Deliver 7]
        (empty_hub default_ring_size 2)) 7 = 1"
  by (simp add: hub_defs default_ring_size_def)

section \<open>The Run Registry\<close>

text \<open>
  Modelled from the spec: the Run Registry and \<open>createRun\<close> are not part of the
  sources, which hold only the client's request to create a project. The registry maps
  project ids to Runs; a Run is active until it reaches a terminal status (succeeded or
  failed). \<open>createRun\<close> is "an atomic check-and-create: a second creation request for
  a project with an active Run is rejected synchronously with a typed conflict error,
  never queued": it returns the conflict or the new run id at once, together with the
  registry, which a rejected call leaves as it was. A Run changes status only while it is
  not terminal, and only a terminal Run is evicted. Calls made concurrently take effect
  one at a time, in some order: a list of calls stands for any such order.
\<close>

datatype run_status = Pending | Active | Paused | Succeeded | Failed

record run =
  run_id :: nat
  project_id :: string
  request :: string
  status :: run_status

record registry =
  runs :: "run list"
  next_run_id :: nat

datatype conflict = ConflictError

definition empty_registry :: registry where
  "empty_registry = \<lparr>runs = [], next_run_id = 0\<rparr>"

definition is_terminal :: "run_status \<Rightarrow> bool" where
  "is_terminal st = (st = Succeeded \<or> st = Failed)"

definition active_runs :: "registry \<Rightarrow> string \<Rightarrow> run list" where
  "active_runs reg p =
     filter (\<lambda>r. project_id r = p \<and> \<not> is_terminal (status r)) (runs reg)"

definition createRun :: "string \<Rightarrow> string \<Rightarrow> registry \<Rightarrow> (conflict + nat) \<times> registry" where
  "createRun p req reg =
     (if active_runs reg p \<noteq> [] then (Inl ConflictError, reg)
      else (Inr (next_run_id reg),
            reg\<lparr>runs := runs reg @
                    [\<lparr>run_id = next_run_id reg, project_id = p, request = req,
                      status = Pending\<rparr>],
                 next_run_id := next_run_id reg + 1\<rparr>))"

definition transition :: "nat \<Rightarrow> run_status \<Rightarrow> registry \<Rightarrow> registry" where
  "transition rid st reg =
     reg\<lparr>runs := map (\<lambda>r. if run_id r = rid \<and> \<not> is_terminal (status r)
                            then r\<lparr>status := st\<rparr> else r) (runs reg)\<rparr>"

definition evict :: "nat \<Rightarrow> registry \<Rightarrow> registry" where
  "evict rid reg =
     reg\<lparr>runs := filter (\<lambda>r. \<not> (run_id r = rid \<and> is_terminal (status r))) (runs reg)\<rparr>"

datatype registry_op =
    Create string string
  | Transition nat run_status
  | Evict nat

fun apply_op :: "registry_op \<Rightarrow> registry \<Rightarrow> registry" where
  "apply_op (Create p req) reg = snd (createRun p req reg)"
| "apply_op (Transition rid st) reg = transition rid st reg"
| "apply_op (Evict rid) reg = evict rid reg"

definition apply_ops :: "registry_op list \<Rightarrow> registry \<Rightarrow> registry" where
  "apply_ops ops reg = foldl (\<lambda>reg op. apply_op op reg) reg ops"

fun createRuns :: "string \<Rightarrow> string list \<Rightarrow> registry \<Rightarrow> (conflict + nat) list \<times> registry" where
  "createRuns p [] reg = ([], reg)"
| "createRuns p (req # reqs) reg =
     (let (res, reg1) = createRun p req reg;
          (ress, reg2) = createRuns p reqs reg1
      in (res # ress, reg2))"

definition at_most_one :: "registry \<Rightarrow> string \<Rightarrow> bool" where
  "at_most_one reg p = (length (active_runs reg p) \<le> 1)"

lemma length_filter_map_le:
  assumes "\<And>x. P (f x) \<Longrightarrow> P x"
  shows "length (filter P (map f xs)) \<le> length (filter P xs)"
  using assms by (induction xs) auto

lemma length_filter_filter_le: "length (filter P (filter Q xs)) \<le> length (filter P xs)"
  by (induction xs) auto

lemma active_runs_transition:
  "length (active_runs (transition rid st reg) p) \<le> length (active_runs reg p)"
proof -
  let ?P = "\<lambda>r. project_id r = p \<and> \<not> is_terminal (status r)"
  let ?f = "\<lambda>r. if run_id r = rid \<and> \<not> is_terminal (status r) then r\<lparr>status := st\<rparr> else r"
  have "length (filter ?P (map ?f (runs reg))) \<le> length (filter ?P (runs reg))"
    by (rule length_filter_map_le) (auto split: if_splits)
  then show ?thesis
    by (simp add: active_runs_def transition_def)
qed

lemma active_runs_evict:
  "length (active_runs (evict rid reg) p) \<le> length (active_runs reg p)"
  by (simp add: active_runs_def evict_def length_filter_filter_le del: filter_filter)

lemma at_most_one_createRun:
  "at_most_one reg p \<Longrightarrow> at_most_one (snd (createRun p' req reg)) p"
  by (auto simp: at_most_one_def createRun_def active_runs_def is_terminal_def)

lemma at_most_one_apply_op: "at_most_one reg p \<Longrightarrow> at_most_one (apply_op op reg) p"
proof (cases op)
  case (Create p' req)
  assume "at_most_one reg p"
  with Create show ?thesis by (simp add: at_most_one_createRun)
next
  case (Transition rid st)
  assume "at_most_one reg p"
  with Transition active_runs_transition [of rid st reg p] show ?thesis
    by (simp add: at_most_one_def)
next
  case (Evict rid)
  assume "at_most_one reg p"
  with Evict active_runs_evict [of rid reg p] show ?thesis
    by (simp add: at_most_one_def)
qed

lemma at_most_one_apply_ops: "at_most_one reg p \<Longrightarrow> at_most_one (apply_ops ops reg) p"
  unfolding apply_ops_def
  by (induction ops arbitrary: reg) (simp_all add: at_most_one_apply_op)

lemma createRun_conflict:
  "active_runs reg p \<noteq> [] \<Longrightarrow> createRun p req reg = (Inl ConflictError, reg)"
  by (simp add: createRun_def)

lemma createRuns_conflict:
  "active_runs reg p \<noteq> [] \<Longrightarrow>
   createRuns p reqs reg = (replicate (length reqs) (Inl ConflictError), reg)"
  by (induction reqs) (simp_all add: createRun_conflict)

lemma createRun_success:
  "active_runs reg p = [] \<Longrightarrow>
   fst (createRun p req reg) = Inr (next_run_id reg)
   \<and> length (active_runs (snd (createRun p req reg)) p) = 1"
  by (simp add: createRun_def active_runs_def is_terminal_def)

text \<open>
  Claim C5. In every registry reached from the empty one, each project has at most one
  active Run. On a project that has an active Run every \<open>createRun\<close> call of a
  batch, in whatever order the calls take effect, returns \<open>ConflictError\<close> and
  leaves the registry unchanged; on a project that has none, exactly one call of the
  batch succeeds (the first to take effect) and every other returns \<open>ConflictError\<close>.
\<close>

theorem one_active_run_per_project:
  "length (active_runs (apply_ops ops empty_registry) p) \<le> 1
   \<and> (active_runs reg p \<noteq> [] \<longrightarrow>
        createRuns p reqs reg = (replicate (length reqs) (Inl ConflictError), reg))
   \<and> (active_runs reg p = [] \<longrightarrow>
        fst (createRuns p (req # reqs) reg)
          = Inr (next_run_id reg) # replicate (length reqs) (Inl ConflictError)
        \<and> length (active_runs (snd (createRuns p (req # reqs) reg)) p) = 1)"
proof -
  have "at_most_one empty_registry p"
    by (simp add: at_most_one_def active_runs_def empty_registry_def)
  then have "at_most_one (apply_ops ops empty_registry) p"
    by (rule at_most_one_apply_ops)
  then have a: "length (active_runs (apply_ops ops empty_registry) p) \<le> 1"
    by (simp add: at_most_one_def)
  have c: "fst (createRuns p (req # reqs) reg)
          = Inr (next_run_id reg) # replicate (length reqs) (Inl ConflictError)
        \<and> length (active_runs (snd (createRuns p (req # reqs) reg)) p) = 1"
    if "active_runs reg p = []"
  proof -
    obtain res reg1 where r: "createRun p req reg = (res, reg1)"
      by (cases "createRun p req reg")
    with createRun_success [OF that, of req]
    have res: "res = Inr (next_run_id reg)" and one: "length (active_runs reg1 p) = 1"
      by simp_all
    from one have "active_runs reg1 p \<noteq> []" by auto
    from createRuns_conflict [OF this, of reqs] r res one show ?thesis
      by simp
  qed
  from a c show ?thesis
    by (simp add: createRuns_conflict)
qed

theorem one_active_run_per_project_witness:
  "active_runs empty_registry ''shop'' = []
   \<and> fst (createRuns ''shop'' [''build a shop'', ''build a shop again'', ''and again'']
            empty_registry)
       = [Inr 0, Inl ConflictError, Inl ConflictError]
   \<and> active_runs (snd (createRun ''shop'' ''build a shop'' empty_registry)) ''shop'' \<noteq> []
   \<and> createRuns ''shop'' [''once more''] (snd (createRun ''shop'' ''build a shop'' empty_registry))
       = ([Inl ConflictError], snd (createRun ''shop'' ''build a shop'' empty_registry))
   \<and> length (active_runs
        (apply_ops [Create ''shop'' ''build a shop'', Create ''shop'' ''again'',
                    Transition 0 Failed, Create ''shop'' ''retry''] empty_registry) ''shop'') \<le> 1"
proof -
  have e: "active_runs empty_registry ''shop'' = []"
    by (simp add: active_runs_def empty_registry_def)
  have n: "active_runs (snd (createRun ''shop'' ''build a shop'' empty_registry)) ''shop'' \<noteq> []"
    by (simp add: createRun_def active_runs_def empty_registry_def is_terminal_def)
  have z: "next_run_id empty_registry = 0"
    by (simp add: empty_registry_def)
  from one_active_run_per_project
         [of "[Create ''shop'' ''build a shop'', Create ''shop'' ''again'',
               Transition 0 Failed, Create ''shop'' ''retry'']" "''shop''" empty_registry
            "[''build a shop again'', ''and again'']" "''build a shop''"] e z
  have 1: "fst (createRuns ''shop'' [''build a shop'', ''build a shop again'', ''and again'']
            empty_registry) = [Inr 0, Inl ConflictError, Inl ConflictError]"
    and 2: "length (active_runs
        (apply_ops [Create ''shop'' ''build a shop'', Create ''shop'' ''again'',
                    Transition 0 Failed, Create ''shop'' ''retry''] empty_registry) ''shop'') \<le> 1"
    by (simp_all add: numeral_eq_Suc)
  from one_active_run_per_project
         [of "[]" "''shop''" "snd (createRun ''shop'' ''build a shop'' empty_registry)"
            "[''once more'']"] n
  have 3: "createRuns ''shop'' [''once more''] (snd (createRun ''shop'' ''build a shop'' empty_registry))
       = ([Inl ConflictError], snd (createRun ''shop'' ''build a shop'' empty_registry))"
    by simp
  from e n 1 2 3 show ?thesis by blast
qed

end
